theory Spec2Isabelle
  imports Main "HOL-Library.Word" "HOL-Library.Signed_Division"
begin

unbundle bit_operations_syntax

section \<open>HellfireOS: kernel bring-up, polling server, NoC test application, libc helpers\<close>

text \<open>
  The development embeds three source files of the repository:
  \<^item> \<^verbatim>\<open>sys/kernel/main.c\<close>: \<^verbatim>\<open>clear_tcb\<close>, \<^verbatim>\<open>clear_pcb\<close>, \<^verbatim>\<open>init_queues\<close>,
    \<^verbatim>\<open>polling_server_task\<close> and the spawn calls of \<^verbatim>\<open>main\<close>;
  \<^item> \<^verbatim>\<open>app/noc_test/noc_test.c\<close>: \<^verbatim>\<open>sender\<close>, \<^verbatim>\<open>receiver\<close>, \<^verbatim>\<open>app_main\<close>;
  \<^item> \<^verbatim>\<open>lib/libc/libc.c\<close>: \<^verbatim>\<open>strncmp\<close>, \<^verbatim>\<open>itoa\<close>, \<^verbatim>\<open>__udivmodsi4\<close>.
  The kernel headers (\<^verbatim>\<open>kernel.h\<close>, \<^verbatim>\<open>queue.h\<close>, \<^verbatim>\<open>task.h\<close>, \<^verbatim>\<open>panic.h\<close>) are not among
  the sources. Constants they define (\<^verbatim>\<open>MAX_TASKS\<close>) are parameters of the model, and the
  functions they declare are either parameters or modelled from the specification, which
  is said at each place.
\<close>

type_synonym u16 = "16 word"
type_synonym u32 = "32 word"
type_synonym s8 = "8 word"
type_synonym addr = nat

section \<open>Task control blocks: \<^verbatim>\<open>clear_tcb\<close>\<close>

text \<open>
  The TCB is declared in \<^verbatim>\<open>kernel.h\<close>, which is not among the sources, so the widths of
  its fields are not known. The record has the fields \<^verbatim>\<open>clear_tcb\<close> writes; a numeric
  field holds the integer the assignment stores (\<open>tcb_id\<close> is the field \<^verbatim>\<open>id\<close>), a
  pointer field is \<open>None\<close> for \<^verbatim>\<open>NULL\<close>, and \<^verbatim>\<open>name\<close> is the character array that
  \<^verbatim>\<open>memset\<close> fills with zero bytes over its whole size. \<^verbatim>\<open>task_context\<close> is the one
  field \<^verbatim>\<open>clear_tcb\<close> leaves alone.
\<close>

datatype task_state = TASK_IDLE | TASK_READY | TASK_RUNNING | TASK_BLOCKED | TASK_DELAYED

record tcb_entry =
  tcb_id :: int
  name :: string
  state :: task_state
  priority :: int
  priority_rem :: int
  delay :: int
  rtjobs :: int
  bgjobs :: int
  deadline_misses :: int
  period :: int
  capacity :: int
  deadline :: int
  capacity_rem :: int
  deadline_rem :: int
  task_context :: "u32 list"
  ptask :: "addr option"
  pstack :: "addr option"
  stack_size :: int
  other_data :: int

text \<open>
  The globals \<^verbatim>\<open>clear_tcb\<close> touches. \<^verbatim>\<open>krnl_tcb\<close> is the TCB array, indexed by slot;
  \<^verbatim>\<open>krnl_task\<close> points into it and is kept as the index of the slot it points to.
\<close>

record kernel =
  krnl_tcb :: "nat \<Rightarrow> tcb_entry"
  krnl_task :: nat
  krnl_tasks :: int
  krnl_current_task :: int
  krnl_schedule :: int

text \<open>The body of the \<^verbatim>\<open>for\<close> loop for slot \<open>i\<close>.\<close>

definition clear_slot :: "nat \<Rightarrow> kernel \<Rightarrow> kernel" where
  "clear_slot i k =
     k\<lparr> krnl_task := i,
        krnl_tcb := (krnl_tcb k)(i := (krnl_tcb k i)
          \<lparr> tcb_id := - 1,
            name := replicate (length (name (krnl_tcb k i))) (CHR 0x00),
            state := TASK_IDLE,
            priority := 0,
            priority_rem := 0,
            delay := 0,
            rtjobs := 0,
            bgjobs := 0,
            deadline_misses := 0,
            period := 0,
            capacity := 0,
            deadline := 0,
            capacity_rem := 0,
            deadline_rem := 0,
            ptask := None,
            pstack := None,
            stack_size := 0,
            other_data := 0 \<rparr>) \<rparr>"

text \<open>
  \<^verbatim>\<open>for(i = 0; i < MAX_TASKS; i++)\<close> with \<^verbatim>\<open>uint16_t i\<close>: the counter wraps at \<open>2^16\<close>,
  and the comparison is made on the promoted value. With \<^verbatim>\<open>MAX_TASKS\<close> above 65535 the
  loop would never end, so the loop is a partial function and \<open>None\<close> stands for not
  returning.
\<close>

partial_function (option) clear_tcb_loop :: "nat \<Rightarrow> u16 \<Rightarrow> kernel \<Rightarrow> kernel option" where
  "clear_tcb_loop MAX_TASKS i k =
     (if unat i < MAX_TASKS
      then clear_tcb_loop MAX_TASKS (i + 1) (clear_slot (unat i) k)
      else Some k)"

declare clear_tcb_loop.simps [code]

definition clear_tcb :: "nat \<Rightarrow> kernel \<Rightarrow> kernel option" where
  "clear_tcb MAX_TASKS k =
     map_option (\<lambda>k'. k'\<lparr> krnl_tasks := 0, krnl_current_task := 0, krnl_schedule := 0 \<rparr>)
       (clear_tcb_loop MAX_TASKS 0 k)"

text \<open>A slot is free when it has the values \<^verbatim>\<open>clear_tcb\<close> gives it.\<close>

definition slot_free :: "tcb_entry \<Rightarrow> bool" where
  "slot_free t \<longleftrightarrow>
     tcb_id t = - 1 \<and> state t = TASK_IDLE \<and>
     priority t = 0 \<and> priority_rem t = 0 \<and> delay t = 0 \<and>
     period t = 0 \<and> capacity t = 0 \<and> deadline t = 0 \<and>
     capacity_rem t = 0 \<and> deadline_rem t = 0 \<and>
     rtjobs t = 0 \<and> bgjobs t = 0 \<and> deadline_misses t = 0 \<and>
     pstack t = None \<and> stack_size t = 0"

lemma clear_slot_free: "slot_free (krnl_tcb (clear_slot i k) i)"
  by (simp add: clear_slot_def slot_free_def)

lemma clear_slot_other: "j \<noteq> i \<Longrightarrow> krnl_tcb (clear_slot i k) j = krnl_tcb k j"
  by (simp add: clear_slot_def)

lemma clear_tcb_loop_returns:
  assumes "MAX_TASKS \<le> 65535" and "unat i \<le> MAX_TASKS"
  shows "\<exists>k'. clear_tcb_loop MAX_TASKS i k = Some k' \<and>
           (\<forall>j. unat i \<le> j \<and> j < MAX_TASKS \<longrightarrow> slot_free (krnl_tcb k' j)) \<and>
           (\<forall>j. j < unat i \<longrightarrow> krnl_tcb k' j = krnl_tcb k j)"
  using assms(2)
proof (induction "MAX_TASKS - unat i" arbitrary: i k)
  case 0
  then have "\<not> unat i < MAX_TASKS" by simp
  then show ?case
    by (subst clear_tcb_loop.simps) auto
next
  case (Suc d)
  then have lt: "unat i < MAX_TASKS" by simp
  then have "unat i + unat (1::u16) < 2 ^ LENGTH(16)"
    using assms(1) by simp
  then have nxt: "unat (i + 1) = unat i + 1"
    by (simp only: unat_add_lem) simp
  have "d = MAX_TASKS - unat (i + 1)" "unat (i + 1) \<le> MAX_TASKS"
    using Suc.hyps(2) lt nxt by simp_all
  from Suc.hyps(1) [OF this, of "clear_slot (unat i) k"] obtain k' where
    k': "clear_tcb_loop MAX_TASKS (i + 1) (clear_slot (unat i) k) = Some k'"
    and fr: "\<forall>j. unat (i + 1) \<le> j \<and> j < MAX_TASKS \<longrightarrow> slot_free (krnl_tcb k' j)"
    and keep: "\<forall>j. j < unat (i + 1) \<longrightarrow> krnl_tcb k' j = krnl_tcb (clear_slot (unat i) k) j"
    by blast
  have "clear_tcb_loop MAX_TASKS i k = Some k'"
    using lt k' by (subst clear_tcb_loop.simps) simp
  moreover have "slot_free (krnl_tcb k' j)" if "unat i \<le> j" "j < MAX_TASKS" for j
  proof (cases "j = unat i")
    case True
    then show ?thesis using keep nxt clear_slot_free [of "unat i" k] by simp
  next
    case False
    then show ?thesis using fr that nxt by simp
  qed
  moreover have "krnl_tcb k' j = krnl_tcb k j" if "j < unat i" for j
    using keep that nxt clear_slot_other [of j "unat i" k] by simp
  ultimately show ?case by blast
qed

text \<open>The loop returns only when \<^verbatim>\<open>MAX_TASKS\<close> is within the range of its counter.\<close>

lemma clear_tcb_loop_bound:
  assumes "clear_tcb_loop MAX_TASKS i k = Some k'"
  shows "MAX_TASKS \<le> 65535"
proof (rule clear_tcb_loop.raw_induct [where P = "\<lambda>M i k k'. M \<le> 65535", OF _ assms])
  fix f M and i :: u16 and k k'
  assume IH: "\<And>M i k k'. f M i k = Some k' \<Longrightarrow> M \<le> 65535"
    and step: "(if unat i < M then f M (i + 1) (clear_slot (unat i) k) else Some k) = Some k'"
  show "M \<le> 65535"
  proof (cases "unat i < M")
    case True
    with step IH show ?thesis by simp
  next
    case False
    moreover have "unat i < 65536"
      using unsigned_less [of i, where 'a = nat] by simp
    ultimately show ?thesis by simp
  qed
qed

text \<open>
  C6. Whenever \<^verbatim>\<open>clear_tcb\<close> returns, every slot \<open>i\<close> in \<open>[0, MAX_TASKS)\<close> is free: its id
  is \<open>-1\<close>, its state is \<^verbatim>\<open>TASK_IDLE\<close>, its priority and remaining priority, delay,
  period, capacity, deadline, remaining capacity and remaining deadline are 0, its
  counters \<^verbatim>\<open>rtjobs\<close>, \<^verbatim>\<open>bgjobs\<close> and \<^verbatim>\<open>deadline_misses\<close> are 0, and it has no stack
  (\<^verbatim>\<open>pstack\<close> is \<^verbatim>\<open>NULL\<close> and \<^verbatim>\<open>stack_size\<close> is 0). And \<^verbatim>\<open>clear_tcb\<close> does return
  when \<^verbatim>\<open>MAX_TASKS\<close> is within the range of the \<^verbatim>\<open>uint16_t\<close> loop counter.
\<close>

theorem clear_tcb_all_free:
  "(MAX_TASKS \<le> 65535 \<longrightarrow> (\<exists>k'. clear_tcb MAX_TASKS k = Some k')) \<and>
   (\<forall>k'. clear_tcb MAX_TASKS k = Some k' \<longrightarrow>
      (\<forall>i<MAX_TASKS. slot_free (krnl_tcb k' i)))"
proof (intro conjI impI allI)
  assume "MAX_TASKS \<le> 65535"
  then show "\<exists>k'. clear_tcb MAX_TASKS k = Some k'"
    using clear_tcb_loop_returns [of MAX_TASKS 0 k] by (auto simp: clear_tcb_def)
next
  fix k' i
  assume ret: "clear_tcb MAX_TASKS k = Some k'" and i: "i < MAX_TASKS"
  then obtain k0 where k0: "clear_tcb_loop MAX_TASKS 0 k = Some k0"
    and k': "k' = k0\<lparr> krnl_tasks := 0, krnl_current_task := 0, krnl_schedule := 0 \<rparr>"
    by (auto simp: clear_tcb_def)
  have "MAX_TASKS \<le> 65535"
    using k0 by (rule clear_tcb_loop_bound)
  then have "slot_free (krnl_tcb k0 i)"
    using clear_tcb_loop_returns [of MAX_TASKS 0 k] k0 i by auto
  then show "slot_free (krnl_tcb k' i)"
    by (simp add: k')
qed

text \<open>A table whose slots are all in use, as a start state to run \<^verbatim>\<open>clear_tcb\<close> on.\<close>

definition used_tcb :: tcb_entry where
  "used_tcb = \<lparr> tcb_id = 7, name = ''old task'', state = TASK_RUNNING, priority = 3,
     priority_rem = 1, delay = 4, rtjobs = 9, bgjobs = 2, deadline_misses = 1, period = 20,
     capacity = 6, deadline = 20, capacity_rem = 2, deadline_rem = 5, task_context = [],
     ptask = Some 4096, pstack = Some 8192, stack_size = 1024, other_data = 0 \<rparr>"

definition stale_kernel :: kernel where
  "stale_kernel = \<lparr> krnl_tcb = (\<lambda>_. used_tcb), krnl_task = 0, krnl_tasks = 5,
     krnl_current_task = 3, krnl_schedule = 1 \<rparr>"

theorem clear_tcb_all_free_witness:
  "(3::nat) \<le> 65535 \<and>
   (\<exists>k'. clear_tcb 3 stale_kernel = Some k' \<and> (2::nat) < 3 \<and> slot_free (krnl_tcb k' 0) \<and>
      slot_free (krnl_tcb k' 1) \<and> slot_free (krnl_tcb k' 2))"
  using clear_tcb_all_free [of 3 stale_kernel] by auto


section \<open>Process control block: \<^verbatim>\<open>clear_pcb\<close>\<close>

text \<open>
  The two scheduler selectors are function pointers. The model names the functions a
  selector can point to; \<^verbatim>\<open>sched_rma\<close> and \<^verbatim>\<open>sched_priorityrr\<close> are the two that
  \<^verbatim>\<open>clear_pcb\<close> installs, \<open>Sched_other\<close> stands for any other function address.
\<close>

datatype scheduler = Sched_rma | Sched_priorityrr | Sched_other nat

record pcb_entry =
  sched_rt :: scheduler
  sched_be :: scheduler
  coop_cswitch :: u32
  preempt_cswitch :: u32
  interrupts :: u32
  tick_time :: u32

definition clear_pcb :: "pcb_entry \<Rightarrow> pcb_entry" where
  "clear_pcb krnl_pcb =
     krnl_pcb\<lparr> sched_rt := Sched_rma,
               sched_be := Sched_priorityrr,
               coop_cswitch := 0,
               preempt_cswitch := 0,
               interrupts := 0,
               tick_time := 0 \<rparr>"

text \<open>
  C7. After \<^verbatim>\<open>clear_pcb\<close>, whatever the PCB held before, the real-time selector is the
  rate-monotonic scheduler, the best-effort selector is the priority round-robin
  scheduler, and the four counters (cooperative context switches, preemptive context
  switches, interrupts, cumulative tick time) are zero.
\<close>

theorem clear_pcb_defaults:
  "sched_rt (clear_pcb p) = Sched_rma \<and>
   sched_be (clear_pcb p) = Sched_priorityrr \<and>
   coop_cswitch (clear_pcb p) = 0 \<and>
   preempt_cswitch (clear_pcb p) = 0 \<and>
   interrupts (clear_pcb p) = 0 \<and>
   tick_time (clear_pcb p) = 0"
  by (simp add: clear_pcb_def)

section \<open>Scheduling queues: \<^verbatim>\<open>init_queues\<close>\<close>

text \<open>
  \<^verbatim>\<open>hf_queue_create\<close> and \<^verbatim>\<open>panic\<close> are declared in headers that are not among the
  sources. \<^verbatim>\<open>hf_queue_create\<close> is a parameter \<open>create\<close> of the model: given the requested
  capacity and the heap it returns a queue handle, or \<open>None\<close> for \<^verbatim>\<open>NULL\<close>, and the new
  heap. Nothing is assumed about it.
\<close>

datatype panic_code = PANIC_OOM | PANIC_GPF | PANIC_ABORTED

record 'q queues =
  krnl_run_queue :: "'q option"
  krnl_delay_queue :: "'q option"
  krnl_rt_queue :: "'q option"
  krnl_aperiodic_queue :: "'q option"

text \<open>
  Modelled from the spec: \<^verbatim>\<open>panic\<close> is terminal (the node halts and prints a code), so a
  call of \<^verbatim>\<open>panic(c)\<close> ends the run with \<open>Inl c\<close> and nothing after it is executed.
\<close>

definition panic :: "panic_code \<Rightarrow> panic_code + 'a" where
  "panic c = Inl c"

definition init_queues ::
  "(nat \<Rightarrow> 'h \<Rightarrow> 'q option \<times> 'h) \<Rightarrow> nat \<Rightarrow> 'q queues \<Rightarrow> 'h \<Rightarrow> panic_code + ('q queues \<times> 'h)" where
  "init_queues create MAX_TASKS qs h0 =
     (case create MAX_TASKS h0 of (r, h1) \<Rightarrow>
      if r = None then panic PANIC_OOM else
     (case create MAX_TASKS h1 of (d, h2) \<Rightarrow>
      if d = None then panic PANIC_OOM else
     (case create MAX_TASKS h2 of (t, h3) \<Rightarrow>
      if t = None then panic PANIC_OOM else
     (case create MAX_TASKS h3 of (a, h4) \<Rightarrow>
      if a = None then panic PANIC_OOM else
      Inr (qs\<lparr> krnl_run_queue := r, krnl_delay_queue := d,
                krnl_rt_queue := t, krnl_aperiodic_queue := a \<rparr>, h4)))))"

text \<open>
  The successive heaps seen by the four calls \<^verbatim>\<open>hf_queue_create(MAX_TASKS)\<close>, and their
  results.
\<close>

fun create_seq :: "(nat \<Rightarrow> 'h \<Rightarrow> 'q option \<times> 'h) \<Rightarrow> nat \<Rightarrow> nat \<Rightarrow> 'h \<Rightarrow> 'q option list \<times> 'h" where
  "create_seq create cap 0 h = ([], h)"
| "create_seq create cap (Suc n) h =
     (case create cap h of
        (None, h') \<Rightarrow> ([None], h')
      | (Some q, h') \<Rightarrow> (case create_seq create cap n h' of (rs, h'') \<Rightarrow> (Some q # rs, h'')))"

text \<open>
  C5. \<^verbatim>\<open>init_queues\<close> asks for queues of capacity \<^verbatim>\<open>MAX_TASKS\<close>, one after the other,
  stopping at the first request that fails. If one of them fails the outcome is the
  panic \<^verbatim>\<open>PANIC_OOM\<close> and nothing else is done; otherwise exactly four queues have been
  created, and they are, in this order, the run, delay, real-time and aperiodic queue.
\<close>

theorem init_queues_four_or_panic:
  "init_queues create MAX_TASKS qs h =
     (case create_seq create MAX_TASKS 4 h of (rs, h') \<Rightarrow>
        if None \<in> set rs then Inl PANIC_OOM
        else Inr (qs\<lparr> krnl_run_queue := rs ! 0, krnl_delay_queue := rs ! 1,
                       krnl_rt_queue := rs ! 2, krnl_aperiodic_queue := rs ! 3 \<rparr>, h'))"
  by (auto simp: init_queues_def panic_def eval_nat_numeral split: prod.splits option.splits)

text \<open>
  One allocator to run \<^verbatim>\<open>init_queues\<close> on: the heap is a number of free cells, a queue of
  capacity \<open>cap\<close> takes \<open>cap\<close> of them, and the handle is the number of cells left.
\<close>

definition bump_create :: "nat \<Rightarrow> nat \<Rightarrow> nat option \<times> nat" where
  "bump_create cap h = (if cap \<le> h then (Some (h - cap), h - cap) else (None, h))"

definition no_queues :: "nat queues" where
  "no_queues = \<lparr> krnl_run_queue = None, krnl_delay_queue = None,
                  krnl_rt_queue = None, krnl_aperiodic_queue = None \<rparr>"

theorem init_queues_four_or_panic_witness:
  "init_queues bump_create 30 no_queues 100 = Inl PANIC_OOM \<and>
   init_queues bump_create 30 no_queues 125 =
     Inr (\<lparr> krnl_run_queue = Some 95, krnl_delay_queue = Some 65,
            krnl_rt_queue = Some 35, krnl_aperiodic_queue = Some 5 \<rparr>, 5)"
  using init_queues_four_or_panic [of bump_create 30 no_queues 100]
    init_queues_four_or_panic [of bump_create 30 no_queues 125]
  by (simp add: eval_nat_numeral bump_create_def no_queues_def)

section \<open>Polling server: \<^verbatim>\<open>polling_server_task\<close>\<close>

text \<open>
  \<^verbatim>\<open>struct aperiodic_entry\<close> is declared in a header that is not among the sources. The
  server reads and writes three of its fields: \<^verbatim>\<open>id\<close>, \<^verbatim>\<open>capacity\<close> and \<^verbatim>\<open>state\<close>. The
  server copies \<^verbatim>\<open>capacity\<close> into \<^verbatim>\<open>int16_t\<close> locals, and the model takes the field as a
  16-bit unsigned tick count; \<^verbatim>\<open>server_fuel\<close> is the \<^verbatim>\<open>int16_t\<close> of the source, a 16-bit
  word read as a signed value by \<open>sint\<close>. Entries are reached through pointers (the queue
  holds pointers, and \<^verbatim>\<open>polling_task\<close> points at the server's own entry), so the model
  keeps them in a store indexed by address.
\<close>

record aperiodic_entry =
  ae_id :: int
  ae_capacity :: u16
  ae_state :: task_state

text \<open>
  Modelled from the spec: the bounded FIFO queue of \<^verbatim>\<open>queue.h\<close> and \<^verbatim>\<open>queue.c\<close>, which are
  not among the sources. A queue has a fixed capacity \<open>q_size\<close> and holds element
  pointers in arrival order, the head first.
\<close>

record hf_queue =
  q_size :: nat
  q_elems :: "addr list"

text \<open>Modelled from the spec: \<^verbatim>\<open>hf_queue_count\<close>, the number of elements in the queue.\<close>

definition hf_queue_count :: "hf_queue \<Rightarrow> nat" where
  "hf_queue_count q = length (q_elems q)"

text \<open>
  Modelled from the spec: \<^verbatim>\<open>hf_queue_addtail\<close> appends at the tail and fails when the
  queue is full, leaving the queue as it is. The server ignores the value it returns, so
  only the queue is kept.
\<close>

definition hf_queue_addtail :: "hf_queue \<Rightarrow> addr \<Rightarrow> hf_queue" where
  "hf_queue_addtail q e =
     (if length (q_elems q) < q_size q then q\<lparr> q_elems := q_elems q @ [e] \<rparr> else q)"

text \<open>
  \<^verbatim>\<open>polling_server_scheduler\<close> is not among the sources either. The server loop takes it
  as a parameter \<open>sched\<close>: given the aperiodic queue it returns the address of the entry
  it selects and the queue it leaves behind, or \<open>None\<close> when it has no entry to give.
  Nothing is assumed about which entry it selects.

  Modelled from the spec: the \<^verbatim>\<open>polling_server_scheduler\<close> of the specification, which
  pops the head of the aperiodic queue. It is the scheduler of the runs shown below.
\<close>

definition polling_server_scheduler :: "hf_queue \<Rightarrow> (addr \<times> hf_queue) option" where
  "polling_server_scheduler q =
     (case q_elems q of [] \<Rightarrow> None | e # es \<Rightarrow> Some (e, q\<lparr> q_elems := es \<rparr>))"

text \<open>
  The state the server works on: its two locals, the entry store, the aperiodic queue
  and the two globals naming the running task. \<open>polling_task\<close> is the address of the
  server's own entry.
\<close>

record server =
  SERVER_CAPACITY :: u16
  server_fuel :: u16
  polling_task :: addr
  entries :: "addr \<Rightarrow> aperiodic_entry"
  aperiodic_queue :: hf_queue
  srv_krnl_task :: addr
  srv_krnl_current_task :: int

text \<open>
  The declarations before the loop: \<^verbatim>\<open>polling_task\<close> is the server's own entry,
  \<^verbatim>\<open>SERVER_CAPACITY\<close> is its capacity converted to \<^verbatim>\<open>int16_t\<close>, and \<^verbatim>\<open>server_fuel\<close> starts
  as \<^verbatim>\<open>SERVER_CAPACITY\<close>. \<open>self\<close> is the address of the entry of \<^verbatim>\<open>hf_selfid()\<close>.
\<close>

definition polling_server_entry ::
  "addr \<Rightarrow> (addr \<Rightarrow> aperiodic_entry) \<Rightarrow> hf_queue \<Rightarrow> addr \<Rightarrow> int \<Rightarrow> server" where
  "polling_server_entry self es q kt kc =
     \<lparr> SERVER_CAPACITY = ae_capacity (es self), server_fuel = ae_capacity (es self),
       polling_task = self, entries = es, aperiodic_queue = q,
       srv_krnl_task = kt, srv_krnl_current_task = kc \<rparr>"

text \<open>What one pass through the body of \<^verbatim>\<open>for(;;)\<close> ends with: \<^verbatim>\<open>hf_yield\<close> on an empty
  queue, or the context switch into the selected entry.\<close>

datatype server_event = Yield | Run addr | No_entry

text \<open>The first statement of the loop body: \<^verbatim>\<open>if(server_fuel == 0) server_fuel = SERVER_CAPACITY;\<close>\<close>

definition refill :: "server \<Rightarrow> server" where
  "refill s = (if server_fuel s = 0 then s\<lparr> server_fuel := SERVER_CAPACITY s \<rparr> else s)"

text \<open>
  The budget accounting for the selected entry \<open>e\<close>. The comparison is made on the
  promoted values (\<^verbatim>\<open>int16_t\<close> against \<^verbatim>\<open>uint16_t\<close>, both as \<^verbatim>\<open>int\<close>); the two
  compound assignments store the low 16 bits of the difference. \<open>q\<close> is the queue after
  the selection.
\<close>

definition account :: "addr \<Rightarrow> hf_queue \<Rightarrow> server \<Rightarrow> server" where
  "account e q s =
     (if uint (ae_capacity (entries s e)) \<le> sint (server_fuel s)
      then s\<lparr> server_fuel := server_fuel s - ae_capacity (entries s e),
              aperiodic_queue := q \<rparr>
      else s\<lparr> entries := (entries s)(e := (entries s e)
                  \<lparr> ae_capacity := ae_capacity (entries s e) - server_fuel s \<rparr>),
              server_fuel := 0,
              aperiodic_queue := hf_queue_addtail q e \<rparr>)"

text \<open>The hand-over to the selected entry, up to \<^verbatim>\<open>_restoreexec\<close>.\<close>

definition dispatch :: "addr \<Rightarrow> server \<Rightarrow> server" where
  "dispatch e s =
     (let s1 = s\<lparr> entries := (entries s)(polling_task s := (entries s (polling_task s))
                     \<lparr> ae_state := TASK_READY \<rparr>) \<rparr>;
          s2 = s1\<lparr> entries := (entries s1)(e := (entries s1 e)\<lparr> ae_state := TASK_RUNNING \<rparr>) \<rparr>
      in s2\<lparr> srv_krnl_task := e, srv_krnl_current_task := ae_id (entries s2 e) \<rparr>)"

text \<open>
  One pass through the body of \<^verbatim>\<open>for(;;)\<close>, from the refill statement to \<^verbatim>\<open>hf_yield\<close> or
  to the context switch; when the server is resumed, by the scheduler after the yield or
  through \<^verbatim>\<open>setjmp\<close> returning non-zero, the \<^verbatim>\<open>continue\<close> starts the next pass.
\<close>

definition polling_server_iter ::
  "(hf_queue \<Rightarrow> (addr \<times> hf_queue) option) \<Rightarrow> server \<Rightarrow> server_event \<times> server" where
  "polling_server_iter sched s0 =
     (let s = refill s0 in
      if hf_queue_count (aperiodic_queue s) = 0 then (Yield, s)
      else (case sched (aperiodic_queue s) of
              None \<Rightarrow> (No_entry, s)
            | Some (next_aperiodic, q) \<Rightarrow>
                (Run next_aperiodic, dispatch next_aperiodic (account next_aperiodic q s))))"


lemma refill_fuel:
  "server_fuel (refill s) = (if server_fuel s = 0 then SERVER_CAPACITY s else server_fuel s)"
  by (simp add: refill_def)

lemma refill_other:
  "aperiodic_queue (refill s) = aperiodic_queue s" "entries (refill s) = entries s"
  "SERVER_CAPACITY (refill s) = SERVER_CAPACITY s"
  by (simp_all add: refill_def)

lemma dispatch_keeps:
  "server_fuel (dispatch e s) = server_fuel s"
  "aperiodic_queue (dispatch e s) = aperiodic_queue s"
  "ae_capacity (entries (dispatch e s) a) = ae_capacity (entries s a)"
  by (simp_all add: dispatch_def Let_def)

lemma sint_fuel_minus_cap:
  fixes fuel cap :: u16
  assumes "uint cap \<le> sint fuel"
  shows "sint (fuel - cap) = sint fuel - uint cap"
proof -
  have c0: "0 \<le> uint cap" by simp
  have f1: "sint fuel < 32768"
    using sint_lt [of fuel] by simp
  have "- 32768 \<le> sint fuel - uint cap" "sint fuel - uint cap < 32768"
    using assms c0 f1 by linarith+
  then have "signed_take_bit 15 (sint fuel - uint cap) = sint fuel - uint cap"
    by (simp add: signed_take_bit_int_eq_self)
  moreover have "fuel - cap = word_of_int (sint fuel - uint cap)"
    by simp
  ultimately show ?thesis
    by (simp only: sint_sbintrunc') simp
qed

lemma uint_cap_minus_fuel:
  fixes fuel cap :: u16
  assumes "sint fuel < uint cap" and "0 \<le> sint fuel"
  shows "uint (cap - fuel) = uint cap - sint fuel"
proof -
  have "uint cap < 65536"
    using uint_lt2p [of cap] by simp
  then have "0 \<le> uint cap - sint fuel" "uint cap - sint fuel < 2 ^ 16"
    using assms by simp_all
  then have tb: "take_bit LENGTH(16) (uint cap - sint fuel) = uint cap - sint fuel"
    by (simp add: take_bit_int_eq_self)
  have eq: "cap - fuel = word_of_int (uint cap - sint fuel)"
    by simp
  show ?thesis
    by (simp only: eq uint_word_of_int_eq tb)
qed


lemma iter_selected:
  assumes "hf_queue_count (aperiodic_queue s0) \<noteq> 0"
    and "sched (aperiodic_queue s0) = Some (e, q)"
  shows "polling_server_iter sched s0 = (Run e, dispatch e (account e q (refill s0)))"
  using assms by (simp add: polling_server_iter_def Let_def refill_other)

text \<open>
  C3. Whenever the server selects an entry \<open>e\<close>, the scheduler leaving the queue \<open>q\<close>
  with room for one more element, with \<open>fuel\<close> the budget after the refill statement and
  \<open>cap\<close> the capacity of \<open>e\<close>: if \<open>fuel \<ge> cap\<close> the budget goes down by exactly \<open>cap\<close>,
  the entry keeps its capacity and the queue is \<open>q\<close> (the entry is not queued again);
  otherwise the budget becomes 0, the capacity of \<open>e\<close> goes down by \<open>fuel\<close> (in 16-bit
  arithmetic, and as integers when \<open>fuel\<close> is not negative) and the queue is \<open>q\<close> with
  \<open>e\<close> appended at the tail.
\<close>

theorem polling_server_accounting:
  assumes "hf_queue_count (aperiodic_queue s0) \<noteq> 0"
    and "sched (aperiodic_queue s0) = Some (e, q)"
    and "hf_queue_count q < q_size q"
  shows "fst (polling_server_iter sched s0) = Run e \<and>
    (uint (ae_capacity (entries s0 e)) \<le> sint (server_fuel (refill s0)) \<longrightarrow>
       sint (server_fuel (snd (polling_server_iter sched s0))) =
         sint (server_fuel (refill s0)) - uint (ae_capacity (entries s0 e)) \<and>
       ae_capacity (entries (snd (polling_server_iter sched s0)) e) = ae_capacity (entries s0 e) \<and>
       aperiodic_queue (snd (polling_server_iter sched s0)) = q) \<and>
    (sint (server_fuel (refill s0)) < uint (ae_capacity (entries s0 e)) \<longrightarrow>
       server_fuel (snd (polling_server_iter sched s0)) = 0 \<and>
       ae_capacity (entries (snd (polling_server_iter sched s0)) e) =
         ae_capacity (entries s0 e) - server_fuel (refill s0) \<and>
       (0 \<le> sint (server_fuel (refill s0)) \<longrightarrow>
          uint (ae_capacity (entries (snd (polling_server_iter sched s0)) e)) =
            uint (ae_capacity (entries s0 e)) - sint (server_fuel (refill s0))) \<and>
       aperiodic_queue (snd (polling_server_iter sched s0)) = q\<lparr> q_elems := q_elems q @ [e] \<rparr>)"
proof -
  define s where "s = refill s0"
  have it: "polling_server_iter sched s0 = (Run e, dispatch e (account e q s))"
    unfolding s_def using assms(1,2) by (rule iter_selected)
  have ent: "entries s = entries s0"
    by (simp add: s_def refill_other)
  have room: "length (q_elems q) < q_size q"
    using assms(3) by (simp add: hf_queue_count_def)
  have ge: "sint (server_fuel (account e q s)) = sint (server_fuel s) - uint (ae_capacity (entries s0 e)) \<and>
            ae_capacity (entries (account e q s) e) = ae_capacity (entries s0 e) \<and>
            aperiodic_queue (account e q s) = q"
    if "uint (ae_capacity (entries s0 e)) \<le> sint (server_fuel s)"
    using that sint_fuel_minus_cap [OF that] by (simp add: account_def ent)
  have lt: "server_fuel (account e q s) = 0 \<and>
            ae_capacity (entries (account e q s) e) = ae_capacity (entries s0 e) - server_fuel s \<and>
            aperiodic_queue (account e q s) = q\<lparr> q_elems := q_elems q @ [e] \<rparr>"
    if "sint (server_fuel s) < uint (ae_capacity (entries s0 e))"
    using that room by (simp add: account_def ent hf_queue_addtail_def)
  have ex: "uint (ae_capacity (entries s0 e) - server_fuel s) =
              uint (ae_capacity (entries s0 e)) - sint (server_fuel s)"
    if "sint (server_fuel s) < uint (ae_capacity (entries s0 e))" "0 \<le> sint (server_fuel s)"
    using that by (rule uint_cap_minus_fuel)
  show ?thesis
    using ge lt ex by (simp add: it dispatch_keeps s_def [symmetric])
qed

text \<open>
  Three entries to run the server on: the server itself at address 0, with capacity 6,
  and two aperiodic entries with capacities 2 and 9 at addresses 1 and 2.
\<close>

definition two_entries :: "addr \<Rightarrow> aperiodic_entry" where
  "two_entries a =
     (if a = 1 then \<lparr> ae_id = 3, ae_capacity = 2, ae_state = TASK_READY \<rparr>
      else if a = 2 then \<lparr> ae_id = 4, ae_capacity = 9, ae_state = TASK_READY \<rparr>
      else \<lparr> ae_id = 1, ae_capacity = 6, ae_state = TASK_RUNNING \<rparr>)"

text \<open>The server entered with entry 1 in the queue, and with entries 2 and 1.\<close>

definition server_start :: server where
  "server_start = polling_server_entry 0 two_entries \<lparr> q_size = 30, q_elems = [1] \<rparr> 0 1"

definition server_short :: server where
  "server_short = polling_server_entry 0 two_entries \<lparr> q_size = 30, q_elems = [2, 1] \<rparr> 0 1"

theorem polling_server_accounting_witness:
  "hf_queue_count (aperiodic_queue server_start) \<noteq> 0 \<and>
   polling_server_scheduler (aperiodic_queue server_start) =
     Some (1, \<lparr> q_size = 30, q_elems = [] \<rparr>) \<and>
   hf_queue_count \<lparr> q_size = 30, q_elems = [] \<rparr> < q_size \<lparr> q_size = 30, q_elems = [] \<rparr> \<and>
   uint (ae_capacity (entries server_start 1)) \<le> sint (server_fuel (refill server_start)) \<and>
   sint (server_fuel (snd (polling_server_iter polling_server_scheduler server_start))) = 4 \<and>
   q_elems (aperiodic_queue (snd (polling_server_iter polling_server_scheduler server_start))) = [] \<and>
   hf_queue_count (aperiodic_queue server_short) \<noteq> 0 \<and>
   polling_server_scheduler (aperiodic_queue server_short) =
     Some (2, \<lparr> q_size = 30, q_elems = [1] \<rparr>) \<and>
   hf_queue_count \<lparr> q_size = 30, q_elems = [1] \<rparr> < q_size \<lparr> q_size = 30, q_elems = [1] \<rparr> \<and>
   sint (server_fuel (refill server_short)) < uint (ae_capacity (entries server_short 2)) \<and>
   0 \<le> sint (server_fuel (refill server_short)) \<and>
   server_fuel (snd (polling_server_iter polling_server_scheduler server_short)) = 0 \<and>
   uint (ae_capacity (entries (snd (polling_server_iter polling_server_scheduler server_short)) 2)) = 3 \<and>
   q_elems (aperiodic_queue (snd (polling_server_iter polling_server_scheduler server_short))) = [1, 2]"
  using polling_server_accounting [of server_start polling_server_scheduler 1
      "\<lparr> q_size = 30, q_elems = [] \<rparr>"]
    polling_server_accounting [of server_short polling_server_scheduler 2
      "\<lparr> q_size = 30, q_elems = [1] \<rparr>"]
  by (simp add: server_start_def server_short_def polling_server_entry_def two_entries_def
      refill_def hf_queue_count_def polling_server_scheduler_def)

text \<open>
  C1, as the code has it. The refill statement sets the budget to \<^verbatim>\<open>SERVER_CAPACITY\<close>
  only when the budget is exactly 0 and leaves any other value alone; a pass that finds
  the queue empty yields with the budget as the refill statement left it. So a budget
  that is not used up is still there when the server runs again after the yield.
\<close>

theorem polling_server_refill_only_when_empty:
  "server_fuel (refill s) = (if server_fuel s = 0 then SERVER_CAPACITY s else server_fuel s) \<and>
   (hf_queue_count (aperiodic_queue s) = 0 \<longrightarrow>
      polling_server_iter sched s = (Yield, refill s) \<and>
      (server_fuel s \<noteq> 0 \<longrightarrow>
         server_fuel (refill (snd (polling_server_iter sched s))) = server_fuel s))"
  by (simp add: polling_server_iter_def Let_def refill_other refill_fuel)

text \<open>
  The server starts a period with the full budget 6 and one entry of capacity 2 in the
  queue. The first pass runs the entry and leaves 4; the second pass finds the queue
  empty and yields. When the server runs again, the refill statement leaves the budget
  at 4: the budget is not set to the capacity 6, and the 4 unused ticks are carried over.
\<close>

theorem polling_server_refill_counterexample:
  "server_fuel server_start = 6 \<and>
   fst (polling_server_iter polling_server_scheduler server_start) = Run 1 \<and>
   fst (polling_server_iter polling_server_scheduler
         (snd (polling_server_iter polling_server_scheduler server_start))) = Yield \<and>
   SERVER_CAPACITY (snd (polling_server_iter polling_server_scheduler
         (snd (polling_server_iter polling_server_scheduler server_start)))) = 6 \<and>
   server_fuel (refill (snd (polling_server_iter polling_server_scheduler
         (snd (polling_server_iter polling_server_scheduler server_start))))) = 4"
  by (simp add: polling_server_iter_def Let_def refill_def hf_queue_count_def
      polling_server_scheduler_def account_def dispatch_def server_start_def
      polling_server_entry_def two_entries_def)

text \<open>The server with 4 ticks of budget left and nothing in the queue.\<close>

definition server_idle :: server where
  "server_idle = \<lparr> SERVER_CAPACITY = 6, server_fuel = 4, polling_task = 0,
     entries = two_entries, aperiodic_queue = \<lparr> q_size = 30, q_elems = [] \<rparr>,
     srv_krnl_task = 0, srv_krnl_current_task = 1 \<rparr>"

theorem polling_server_refill_only_when_empty_witness:
  "hf_queue_count (aperiodic_queue server_idle) = 0 \<and> server_fuel server_idle \<noteq> 0 \<and>
   fst (polling_server_iter polling_server_scheduler server_idle) = Yield \<and>
   server_fuel (refill (snd (polling_server_iter polling_server_scheduler server_idle))) = 4"
  using polling_server_refill_only_when_empty [of server_idle polling_server_scheduler]
  by (simp add: server_idle_def hf_queue_count_def refill_def)

section \<open>Boot: the \<^verbatim>\<open>hf_spawn\<close> calls of \<^verbatim>\<open>main\<close>\<close>

text \<open>
  \<^verbatim>\<open>main\<close> creates three tasks. \<^verbatim>\<open>hf_spawn\<close> is defined in \<^verbatim>\<open>task.c\<close>, which is not among
  the sources, so a call is recorded with its six arguments by position.
\<close>

datatype task_body =
  Idletask | Polling_server_task | Aperiodic_task_generator | Dummy_task | Sender | Receiver

record spawn_call =
  arg_task :: task_body
  arg2 :: nat
  arg3 :: nat
  arg4 :: nat
  arg_name :: string
  arg_stack_size :: nat


text \<open>The spawn of \<^verbatim>\<open>aperiodic_task_generator\<close>, which creates the aperiodic tasks.\<close>

definition dummy_task_spawn :: spawn_call where
  "dummy_task_spawn =
     \<lparr> arg_task = Dummy_task, arg2 = 0, arg3 = 18, arg4 = 0,
       arg_name = ''dummy task'', arg_stack_size = 1024 \<rparr>"

text \<open>
  Modelled from the spec: \<^verbatim>\<open>hf_spawn\<close> of \<^verbatim>\<open>task.c\<close>, which is not among the sources. The
  specification's spawn takes the entry, three scheduling numbers, a name and a stack
  size, and fills the task's descriptor with them; a task with a period above 0 is a
  real-time task, and the polling server of the specification runs with period 20 and
  capacity 6. Which number goes to which field of the descriptor is read off the
  callers in \<^verbatim>\<open>main.c\<close>: the second is the period (0 for the aperiodic dummy task, 20 and
  10 for the two periodic tasks); the third is the capacity, since the aperiodic dummy
  task is spawned with \<open>(0, 18, 0)\<close> and the polling server budgets every aperiodic
  entry against its \<^verbatim>\<open>capacity\<close> field, which would be 0 under any other reading; the
  fourth, equal to the period for the two periodic tasks, is the deadline.
\<close>

record spawn_params =
  sp_period :: nat
  sp_capacity :: nat
  sp_deadline :: nat

definition hf_spawn_params :: "spawn_call \<Rightarrow> spawn_params" where
  "hf_spawn_params c = \<lparr> sp_period = arg2 c, sp_capacity = arg3 c, sp_deadline = arg4 c \<rparr>"


lemma dummy_task_spawn_params:
  "hf_spawn_params dummy_task_spawn = \<lparr> sp_period = 0, sp_capacity = 18, sp_deadline = 0 \<rparr>"
  by (simp add: hf_spawn_params_def dummy_task_spawn_def)


section \<open>NoC test application\<close>

text \<open>
  The kernel calls of \<^verbatim>\<open>noc_test.c\<close> are recorded as a trace. The kernel itself
  (\<^verbatim>\<open>hf_spawn\<close>, \<^verbatim>\<open>hf_comm_create\<close>, \<^verbatim>\<open>hf_sendack\<close>, \<^verbatim>\<open>hf_recvack\<close>) is not among the
  sources: what its calls return is an input of the model. Both tasks loop forever; a
  run is cut after as many iterations as return values are supplied.
\<close>

text \<open>
  A call is recorded with its arguments in the order of the source, leaving out the
  buffers: \<^verbatim>\<open>hf_sendack(target_cpu, target_port, buf, size, channel, timeout)\<close> is
  \<open>Hf_sendack target_cpu target_port size channel timeout\<close>, and
  \<^verbatim>\<open>hf_recvack(&cpu, &task, buf, &size, channel)\<close> is \<open>Hf_recvack channel\<close>.
\<close>

datatype kcall =
  Hf_spawn task_body nat nat nat string nat
| Hf_comm_create nat nat nat
| Hf_sendack nat nat nat nat nat
| Hf_recvack nat
| Sprintf_msg u32
| Printf_error string u16
| Printf_buf
| Panic nat

definition app_main :: "nat \<Rightarrow> kcall list" where
  "app_main cpuid =
     (if cpuid = 2 then [Hf_spawn Sender 0 0 0 ''sender'' 4096]
      else [Hf_spawn Receiver 0 0 0 ''receiver'' 4096])"

text \<open>
  The loop of \<^verbatim>\<open>sender\<close>; \<open>msg\<close> is the message counter (an \<^verbatim>\<open>int32_t\<close>) and the list
  holds the values returned by \<^verbatim>\<open>hf_sendack\<close>. \<^verbatim>\<open>sizeof(buf)\<close> is 1500, the size of the
  array \<^verbatim>\<open>int8_t buf[1500]\<close>.
\<close>

fun sender_loop :: "u32 \<Rightarrow> u16 list \<Rightarrow> kcall list" where
  "sender_loop msg [] = []"
| "sender_loop msg (val # vals) =
     Sprintf_msg msg # Hf_sendack 3 5000 1500 0 500 #
     (if val \<noteq> 0 then [Printf_error ''hf_sendack(): error'' val] else []) @
     sender_loop (msg + 1) vals"

text \<open>\<open>self\<close> is \<^verbatim>\<open>hf_selfid()\<close>, \<open>cc\<close> the value returned by \<^verbatim>\<open>hf_comm_create\<close>.\<close>

definition sender :: "nat \<Rightarrow> int \<Rightarrow> u16 list \<Rightarrow> kcall list" where
  "sender self cc vals =
     Hf_comm_create self 1000 0 #
     (if cc \<noteq> 0 then [Panic 0xff] else sender_loop 0 vals)"

fun receiver_loop :: "u16 list \<Rightarrow> kcall list" where
  "receiver_loop [] = []"
| "receiver_loop (val # vals) =
     Hf_recvack 0 #
     (if val \<noteq> 0 then Printf_error ''hf_recvack(): error'' val else Printf_buf) #
     receiver_loop vals"

definition receiver :: "nat \<Rightarrow> int \<Rightarrow> u16 list \<Rightarrow> kcall list" where
  "receiver self cc vals =
     Hf_comm_create self 5000 0 #
     (if cc \<noteq> 0 then [Panic 0xff] else receiver_loop vals)"

text \<open>The messaging calls of a trace: transmissions and receptions.\<close>

fun is_transfer :: "kcall \<Rightarrow> bool" where
  "is_transfer (Hf_sendack _ _ _ _ _) = True"
| "is_transfer (Hf_recvack _) = True"
| "is_transfer _ = False"

lemma sender_loop_transfers:
  "filter is_transfer (sender_loop msg vals) = replicate (length vals) (Hf_sendack 3 5000 1500 0 500)"
  by (induction vals arbitrary: msg) simp_all

lemma receiver_loop_transfers:
  "filter is_transfer (receiver_loop vals) = replicate (length vals) (Hf_recvack 0)"
  by (induction vals) simp_all

text \<open>
  C4. The node with cpu id 2 spawns the sender and nothing else; every other node spawns
  the receiver and nothing else. Once its port is created, the sender's transfers are,
  one per iteration, \<^verbatim>\<open>hf_sendack\<close> to cpu 3, port 5000, of 1500 bytes, on channel 0,
  with a timeout of 500 ms. The receiver begins by creating port 5000 for itself and,
  once the port is created, its transfers are, one per iteration, \<^verbatim>\<open>hf_recvack\<close> on
  channel 0.
\<close>

theorem noc_test_roles:
  "app_main 2 = [Hf_spawn Sender 0 0 0 ''sender'' 4096] \<and>
   (cpuid \<noteq> 2 \<longrightarrow> app_main cpuid = [Hf_spawn Receiver 0 0 0 ''receiver'' 4096]) \<and>
   filter is_transfer (sender self 0 vals) =
     replicate (length vals) (Hf_sendack 3 5000 1500 0 500) \<and>
   hd (receiver self cc vals) = Hf_comm_create self 5000 0 \<and>
   filter is_transfer (receiver self 0 vals) = replicate (length vals) (Hf_recvack 0)"
  by (simp add: app_main_def sender_def receiver_def sender_loop_transfers
      receiver_loop_transfers)

theorem noc_test_roles_witness:
  "(3::nat) \<noteq> 2 \<and> app_main 3 = [Hf_spawn Receiver 0 0 0 ''receiver'' 4096] \<and>
   sender 1 0 [0, 7] =
     [Hf_comm_create 1 1000 0,
      Sprintf_msg 0, Hf_sendack 3 5000 1500 0 500,
      Sprintf_msg 1, Hf_sendack 3 5000 1500 0 500, Printf_error ''hf_sendack(): error'' 7]"
  using noc_test_roles [of 3 1 "[0, 7]"]
  by (simp add: sender_def)

section \<open>libc: \<^verbatim>\<open>strncmp\<close>\<close>

text \<open>
  Strings live in a byte memory \<open>m\<close> (\<^verbatim>\<open>int8_t\<close> cells) and are passed by address. To
  tell whether a string is inspected, the model returns the list of addresses read, in
  the order of the reads, next to the result.
\<close>

lemma sint_pred:
  assumes "0 \<le> sint (n::u32)"
  shows "sint (n - 1) = sint n - 1"
proof -
  have "sint n < 2 ^ 31"
    using sint_lt [of n] by simp
  then have "- (2 ^ 31) \<le> sint n - 1" "sint n - 1 < 2 ^ 31"
    using assms by simp_all
  then have "signed_take_bit 31 (sint n - 1) = sint n - 1"
    by (simp add: signed_take_bit_int_eq_self)
  then show ?thesis
    by (simp add: sint_word_ariths)
qed

text \<open>
  The final \<^verbatim>\<open>return(n<0 ? 0 : *s1 - *--s2)\<close>; \<open>s2\<close> is the pointer as the loop left
  it. The result pairs the returned value with the addresses read so far.
\<close>

definition strncmp_ret :: "(addr \<Rightarrow> s8) \<Rightarrow> addr \<Rightarrow> addr \<Rightarrow> u32 \<Rightarrow> addr list \<Rightarrow> int \<times> addr list" where
  "strncmp_ret m s1 s2 n rd =
     (if sint n < 0 then (0, rd)
      else (sint (m s1) - sint (m (s2 - 1)), rd @ [s1, s2 - 1]))"

text \<open>
  The \<^verbatim>\<open>while\<close> loop. \<open>n - 1\<close> is the pre-decrement \<^verbatim>\<open>--n\<close> on a 32-bit word, so
  decrementing the least \<^verbatim>\<open>int32_t\<close> wraps to the greatest; the test \<^verbatim>\<open>>= 0\<close> reads the
  word as a signed value. The bytes are read only when that test succeeds.
\<close>

function strncmp_loop :: "(addr \<Rightarrow> s8) \<Rightarrow> addr \<Rightarrow> addr \<Rightarrow> u32 \<Rightarrow> addr list \<Rightarrow> int \<times> addr list" where
  "strncmp_loop m s1 s2 n rd =
     (if 0 \<le> sint (n - 1)
      then (if m s1 = m s2
            then (if m s1 = 0
                  then (0, rd @ [s1, s2, s1])
                  else strncmp_loop m (s1 + 1) (s2 + 1) (n - 1) (rd @ [s1, s2, s1]))
            else strncmp_ret m s1 (s2 + 1) (n - 1) (rd @ [s1, s2]))
      else strncmp_ret m s1 s2 (n - 1) rd)"
  by pat_completeness auto
termination
proof (relation "measure (\<lambda>(m, s1, s2, n, rd). nat (sint (n - 1) + 1))", goal_cases)
  case 1
  show ?case by simp
next
  case (2 m s1 s2 n rd)
  then show ?case
    using sint_pred [of "n - 1"] by simp
qed

declare strncmp_loop.simps [simp del]

definition strncmp :: "(addr \<Rightarrow> s8) \<Rightarrow> addr \<Rightarrow> addr \<Rightarrow> u32 \<Rightarrow> int \<times> addr list" where
  "strncmp m s1 s2 n = strncmp_loop m s1 s2 n []"

text \<open>A memory holding the given bytes from address 0 on, and zero bytes elsewhere.\<close>

definition bytes_at :: "s8 list \<Rightarrow> addr \<Rightarrow> s8" where
  "bytes_at bs a = (if a < length bs then bs ! a else 0)"


text \<open>
  For every \<open>n \<le> 0\<close> other than the least \<^verbatim>\<open>int32_t\<close>, \<^verbatim>\<open>strncmp\<close> returns 0 and reads
  nothing.
\<close>

lemma strncmp_nonpositive:
  assumes "sint n \<le> 0" and "sint n \<noteq> - (2 ^ 31)"
  shows "strncmp m s1 s2 n = (0, [])"
proof -
  have "- (2 ^ 31) \<le> sint n"
    using sint_ge [of n] by simp
  then have "- (2 ^ 31) \<le> sint n - 1" "sint n - 1 < 2 ^ 31"
    using assms by simp_all
  then have "signed_take_bit 31 (sint n - 1) = sint n - 1"
    by (simp add: signed_take_bit_int_eq_self)
  then have "sint (n - 1) = sint n - 1"
    by (simp add: sint_word_ariths)
  then have "\<not> 0 \<le> sint (n - 1)"
    using assms(1) by simp
  then show ?thesis
    unfolding strncmp_def by (subst strncmp_loop.simps) (simp add: strncmp_ret_def)
qed

text \<open>
  C10. For \<open>n \<le> 0\<close> \<^verbatim>\<open>strncmp\<close> is to return 0 without reading either string. At
  \<open>n = -2147483648\<close> it does not: the decrement wraps to 2147483647, the loop compares
  the first bytes of \<^verbatim>\<open>"a"\<close> (at address 0) and \<^verbatim>\<open>"b"\<close> (at address 2), and the result
  is \<open>'a' - 'b' = -1\<close> after four reads.
\<close>

theorem strncmp_int_min:
  "sint (- 2147483648 :: u32) \<le> 0 \<and>
   strncmp (bytes_at [97, 0, 98, 0]) 0 2 (- 2147483648) = (- 1, [0, 2, 0, 2])"
  by (simp add: strncmp_def strncmp_loop.simps strncmp_ret_def bytes_at_def)

section \<open>libc: \<^verbatim>\<open>itoa\<close>\<close>

text \<open>
  The output buffer is part of a character memory indexed by address; the buffer is
  taken to be large enough, as the C code takes it. \<open>i\<close> and \<open>base\<close> are 32-bit words
  read as signed values.
\<close>

text \<open>
  \<^verbatim>\<open>i /= base\<close> on \<^verbatim>\<open>int32_t\<close>: C division truncates towards zero, which is \<open>sdiv\<close> on
  the signed values; the quotient is stored back into 32 bits.
\<close>

definition sdiv32 :: "u32 \<Rightarrow> u32 \<Rightarrow> u32" where
  "sdiv32 a b = word_of_int (sint a sdiv sint b)"

definition itoa_digits :: string where
  "itoa_digits = ''zyxwvutsrqponmlkjihgfedcba9876543210123456789abcdefghijklmnopqrstuvwxyz''"

text \<open>
  The \<^verbatim>\<open>do ... while (i)\<close> loop. It returns the last \<^verbatim>\<open>tmp_value\<close>, the pointer after
  the last digit written and the memory. \<^verbatim>\<open>itoa\<close> enters it only with a base in
  \<open>[2, 36]\<close>. On its own, for a base such as 1 the loop does not end, and for other
  bases it can index outside the digit table: the loop is a partial function, and
  \<open>None\<close> stands for both.
\<close>

partial_function (option) itoa_loop ::
  "u32 \<Rightarrow> u32 \<Rightarrow> addr \<Rightarrow> (addr \<Rightarrow> char) \<Rightarrow> (u32 \<times> addr \<times> (addr \<Rightarrow> char)) option" where
  "itoa_loop i base ptr m =
     (let tmp_value = i;
          i' = sdiv32 i base;
          idx = sint (35 + (tmp_value - i' * base))
      in if 0 \<le> idx \<and> idx < int (length itoa_digits)
         then (let m' = m(ptr := itoa_digits ! nat idx)
               in if i' \<noteq> 0 then itoa_loop i' base (ptr + 1) m'
                  else Some (tmp_value, ptr + 1, m'))
         else None)"

declare itoa_loop.simps [code]

text \<open>The final \<^verbatim>\<open>while(ptr1 < ptr)\<close> loop, which swaps the two ends inwards.\<close>

function itoa_reverse :: "(addr \<Rightarrow> char) \<Rightarrow> addr \<Rightarrow> addr \<Rightarrow> (addr \<Rightarrow> char)" where
  "itoa_reverse m ptr1 ptr =
     (if ptr1 < ptr
      then itoa_reverse ((m(ptr := m ptr1))(ptr1 := m ptr)) (ptr1 + 1) (ptr - 1)
      else m)"
  by pat_completeness auto
termination
  by (relation "measure (\<lambda>(m, ptr1, ptr). ptr - ptr1)") auto

declare itoa_reverse.simps [simp del]

text \<open>
  \<^verbatim>\<open>itoa(i, s, base)\<close> on a character memory \<open>m\<close>; it returns the pointer \<open>s\<close> and the
  memory after the writes.
\<close>

definition itoa :: "u32 \<Rightarrow> addr \<Rightarrow> u32 \<Rightarrow> (addr \<Rightarrow> char) \<Rightarrow> (addr \<times> (addr \<Rightarrow> char)) option" where
  "itoa i s base m =
     (if sint base < 2 \<or> 36 < sint base
      then Some (s, m(s := CHR 0x00))
      else (case itoa_loop i base s m of
              None \<Rightarrow> None
            | Some (tmp_value, ptr, m1) \<Rightarrow>
                (let (ptr, m2) = (if sint tmp_value < 0 then (ptr + 1, m1(ptr := CHR ''-'')) else (ptr, m1));
                     m3 = m2(ptr := CHR 0x00);
                     ptr = ptr - 1
                 in Some (s, itoa_reverse m3 s ptr))))"

text \<open>The \<open>n\<close> characters stored from address \<open>p\<close> on.\<close>

definition read_mem :: "(addr \<Rightarrow> char) \<Rightarrow> addr \<Rightarrow> nat \<Rightarrow> string" where
  "read_mem m p n = map m [p..<p + n]"

text \<open>The memory after storing the characters \<open>xs\<close> from address \<open>p\<close> on.\<close>

primrec write_at :: "(addr \<Rightarrow> char) \<Rightarrow> addr \<Rightarrow> string \<Rightarrow> (addr \<Rightarrow> char)" where
  "write_at m p [] = m"
| "write_at m p (x # xs) = write_at (m(p := x)) (Suc p) xs"

text \<open>
  The standard representation of an integer in a base, which \<^verbatim>\<open>itoa\<close> is compared
  with: the digits of the magnitude in the given base, most significant first, with the
  digit characters \<open>0-9a-z\<close>, and a minus sign in front of a negative number.
\<close>

definition digit_char :: "nat \<Rightarrow> char" where
  "digit_char d = ''0123456789abcdefghijklmnopqrstuvwxyz'' ! d"

function base_digits :: "nat \<Rightarrow> nat \<Rightarrow> string" where
  "base_digits b n =
     (if b < 2 \<or> n < b then [digit_char n]
      else base_digits b (n div b) @ [digit_char (n mod b)])"
  by pat_completeness auto
termination
  by (relation "measure (\<lambda>(b, n). n)") auto

declare base_digits.simps [simp del]

definition std_repr :: "nat \<Rightarrow> int \<Rightarrow> string" where
  "std_repr b v = (if v < 0 then CHR ''-'' # base_digits b (nat (- v)) else base_digits b (nat v))"


lemma itoa_digits_split:
  "itoa_digits = rev (tl ''0123456789abcdefghijklmnopqrstuvwxyz'') @ ''0123456789abcdefghijklmnopqrstuvwxyz''"
  by (simp add: itoa_digits_def)

lemma itoa_digits_nth:
  assumes "- 35 \<le> r" and "r \<le> 35"
  shows "itoa_digits ! nat (35 + r) = digit_char (nat \<bar>r\<bar>)"
proof (cases "0 \<le> r")
  case True
  then have "nat (35 + r) = 35 + nat r" by simp
  then show ?thesis
    using True unfolding itoa_digits_split digit_char_def
    by (simp add: nth_append)
next
  case False
  define k where "k = nat (- r)"
  have k: "0 < k" "k \<le> 35" and r: "r = - int k"
    using False assms by (simp_all add: k_def)
  have "nat (35 + r) = 35 - k" using r k by simp
  moreover have "35 - k < length (tl ''0123456789abcdefghijklmnopqrstuvwxyz'')"
    using k by simp
  moreover have "35 - Suc (35 - k) = k - 1" using k by simp
  ultimately have "itoa_digits ! nat (35 + r) = tl ''0123456789abcdefghijklmnopqrstuvwxyz'' ! (k - 1)"
    unfolding itoa_digits_split by (simp add: nth_append rev_nth del: list.sel)
  also have "\<dots> = ''0123456789abcdefghijklmnopqrstuvwxyz'' ! k"
    using k by (simp add: nth_tl del: list.sel)
  finally show ?thesis
    using r by (simp add: digit_char_def)
qed

lemma sint_of_int_small:
  assumes "- (2 ^ 31) \<le> x" and "x < 2 ^ 31"
  shows "sint (word_of_int x :: u32) = x"
proof -
  have "signed_take_bit 31 x = x"
    using assms by (simp add: signed_take_bit_int_eq_self)
  then show ?thesis
    by (simp add: sint_sbintrunc')
qed

lemma sdiv_smod_nonneg:
  fixes v b :: int
  assumes "0 \<le> v" and "0 < b"
  shows "v sdiv b = v div b" and "v smod b = v mod b"
  using assms by (cases "v = 0"; simp add: signed_divide_int_def signed_modulo_int_def)+

lemma sdiv_smod_neg:
  fixes v b :: int
  assumes "v < 0" and "0 < b"
  shows "v sdiv b = - ((- v) div b)" and "v smod b = - ((- v) mod b)"
  using assms by (simp_all add: signed_divide_int_def signed_modulo_int_def)

text \<open>The magnitude view: one step of the digit loop on \<open>n = \<bar>v\<bar>\<close>.\<close>

lemma sdiv_smod_abs:
  fixes v b :: int
  assumes "0 < b"
  shows "nat \<bar>v sdiv b\<bar> = nat \<bar>v\<bar> div nat b"
    and "nat \<bar>v smod b\<bar> = nat \<bar>v\<bar> mod nat b"
    and "v sdiv b \<noteq> 0 \<Longrightarrow> (v sdiv b < 0 \<longleftrightarrow> v < 0)"
    and "v - (v sdiv b) * b = v smod b"
    and "\<bar>v sdiv b\<bar> \<le> \<bar>v\<bar>"
    and "(v sdiv b \<le> 0 \<longleftrightarrow> v \<le> 0) \<or> v sdiv b = 0"
proof -
  show "v - (v sdiv b) * b = v smod b"
    by (rule minus_sdiv_mult_eq_smod)
  show "\<bar>v sdiv b\<bar> \<le> \<bar>v\<bar>"
    using sdiv_int_range [of v b] by auto
  have q: "0 \<le> \<bar>v\<bar> div b" and r: "0 \<le> \<bar>v\<bar> mod b"
    using assms by (simp_all add: pos_imp_zdiv_nonneg_iff)
  have d: "nat (\<bar>v\<bar> div b) = nat \<bar>v\<bar> div nat b"
    using assms by (simp add: nat_div_distrib)
  have m: "nat (\<bar>v\<bar> mod b) = nat \<bar>v\<bar> mod nat b"
    using assms by (simp add: nat_mod_distrib)
  show "nat \<bar>v sdiv b\<bar> = nat \<bar>v\<bar> div nat b"
  proof (cases "0 \<le> v")
    case True
    then show ?thesis using sdiv_smod_nonneg(1) [OF True assms] q d by simp
  next
    case False
    then have "v < 0" by simp
    then show ?thesis using sdiv_smod_neg(1) [OF _ assms, of v] q d by simp
  qed
  show "nat \<bar>v smod b\<bar> = nat \<bar>v\<bar> mod nat b"
  proof (cases "0 \<le> v")
    case True
    then show ?thesis using sdiv_smod_nonneg(2) [OF True assms] r m by simp
  next
    case False
    then have "v < 0" by simp
    then show ?thesis using sdiv_smod_neg(2) [OF _ assms, of v] r m by simp
  qed
  show "v sdiv b < 0 \<longleftrightarrow> v < 0" if "v sdiv b \<noteq> 0"
  proof (cases "0 \<le> v")
    case True
    then show ?thesis using sdiv_smod_nonneg(1) [OF True assms] q by simp
  next
    case False
    then have "v < 0" by simp
    then show ?thesis using sdiv_smod_neg(1) [OF _ assms, of v] q that by simp
  qed
  show "(v sdiv b \<le> 0 \<longleftrightarrow> v \<le> 0) \<or> v sdiv b = 0"
  proof (cases "0 \<le> v")
    case True
    then show ?thesis using sdiv_smod_nonneg(1) [OF True assms] q by auto
  next
    case False
    then have "v < 0" by simp
    then show ?thesis using sdiv_smod_neg(1) [OF _ assms, of v] q by simp
  qed
qed

lemma sint_sdiv32:
  assumes "0 < sint base"
  shows "sint (sdiv32 i base) = sint i sdiv sint base"
proof -
  have "- (2 ^ 31) \<le> sint i" "sint i < 2 ^ 31"
    using sint_ge [of i] sint_lt [of i] by simp_all
  then have "- (2 ^ 31) \<le> sint i sdiv sint base \<and> sint i sdiv sint base < 2 ^ 31"
    using sdiv_smod_abs(5,6) [OF assms, of "sint i"] by linarith
  then have "- (2 ^ 31) \<le> sint i sdiv sint base" "sint i sdiv sint base < 2 ^ 31"
    by simp_all
  then show ?thesis
    unfolding sdiv32_def by (rule sint_of_int_small)
qed

lemma itoa_index:
  assumes "2 \<le> sint base" and "sint base \<le> 36"
  shows "sint (35 + (i - sdiv32 i base * base)) = 35 + sint i smod sint base"
    and "- 35 \<le> sint i smod sint base" and "sint i smod sint base \<le> 35"
proof -
  have pos: "0 < sint base" using assms(1) by simp
  have "sint i smod sint base \<in> {- \<bar>sint base\<bar> + 1..\<bar>sint base\<bar> - 1}"
    using pos by (intro smod_int_range) simp
  then show lo: "- 35 \<le> sint i smod sint base" and hi: "sint i smod sint base \<le> 35"
    using assms by simp_all
  have "i - sdiv32 i base * base =
          word_of_int (sint i) - word_of_int (sint i sdiv sint base) * word_of_int (sint base)"
    by (simp add: sdiv32_def)
  also have "\<dots> = word_of_int (sint i - (sint i sdiv sint base) * sint base)"
    by (simp only: word_of_int_hom_syms)
  also have "\<dots> = word_of_int (sint i smod sint base)"
    by (simp only: minus_sdiv_mult_eq_smod)
  finally have "35 + (i - sdiv32 i base * base) = word_of_int (35 + sint i smod sint base)"
    by simp
  moreover have "sint (word_of_int (35 + sint i smod sint base) :: u32) = 35 + sint i smod sint base"
    using lo hi by (intro sint_of_int_small) simp_all
  ultimately show "sint (35 + (i - sdiv32 i base * base)) = 35 + sint i smod sint base"
    by simp
qed


lemma write_at_nth:
  "write_at m p xs a = (if p \<le> a \<and> a < p + length xs then xs ! (a - p) else m a)"
proof (induction xs arbitrary: m p)
  case Nil
  then show ?case by auto
next
  case (Cons x xs)
  have unfold: "write_at m p (x # xs) a =
                  (if Suc p \<le> a \<and> a < Suc p + length xs then xs ! (a - Suc p)
                   else (m(p := x)) a)"
    by (simp add: Cons.IH)
  show ?case
  proof (cases "a = p")
    case True
    then show ?thesis unfolding unfold by simp
  next
    case False
    have "(x # xs) ! (a - p) = xs ! (a - Suc p)" if "p \<le> a"
    proof -
      have "a - p = Suc (a - Suc p)" using that False by simp
      then show ?thesis by simp
    qed
    then show ?thesis unfolding unfold using False by auto
  qed
qed

lemma write_at_snoc: "write_at m p (xs @ [x]) = (write_at m p xs)(p + length xs := x)"
  by (induction xs arbitrary: m p) simp_all

lemma base_digits_nonempty: "base_digits b n \<noteq> []"
  by (subst base_digits.simps) simp

lemma itoa_loop_spec:
  assumes "2 \<le> sint base" and "sint base \<le> 36"
  shows "\<exists>t. itoa_loop i base ptr m =
           Some (t, ptr + length (base_digits (nat (sint base)) (nat \<bar>sint i\<bar>)),
                 write_at m ptr (rev (base_digits (nat (sint base)) (nat \<bar>sint i\<bar>)))) \<and>
           (sint t < 0 \<longleftrightarrow> sint i < 0)"
proof (induction "nat \<bar>sint i\<bar>" arbitrary: i ptr m rule: less_induct)
  case less
  define B where "B = nat (sint base)"
  define N where "N = nat \<bar>sint i\<bar>"
  define i' where "i' = sdiv32 i base"
  define d where "d = digit_char (N mod B)"
  have pos: "0 < sint base" and B2: "2 \<le> B"
    using assms(1) by (simp_all add: B_def)
  have si': "sint i' = sint i sdiv sint base"
    unfolding i'_def by (rule sint_sdiv32 [OF pos])
  have N': "nat \<bar>sint i'\<bar> = N div B"
    unfolding si' N_def B_def by (rule sdiv_smod_abs(1) [OF pos])
  have idx: "sint (35 + (i - i' * base)) = 35 + sint i smod sint base"
    and lo: "- 35 \<le> sint i smod sint base" and hi: "sint i smod sint base \<le> 35"
    unfolding i'_def by (rule itoa_index [OF assms])+
  have dig: "itoa_digits ! nat (35 + sint i smod sint base) = d"
    unfolding d_def N_def B_def
    using itoa_digits_nth [OF lo hi] sdiv_smod_abs(2) [OF pos, of "sint i"] by simp
  have inrange: "0 \<le> 35 + sint i smod sint base \<and> 35 + sint i smod sint base < int (length itoa_digits)"
    using lo hi by (simp add: itoa_digits_def)
  have step: "itoa_loop i base ptr m =
                (if i' \<noteq> 0 then itoa_loop i' base (ptr + 1) (m(ptr := d))
                 else Some (i, ptr + 1, m(ptr := d)))"
    using inrange dig idx
    by (subst itoa_loop.simps) (simp add: Let_def i'_def [symmetric])
  show ?case
  proof (cases "i' = 0")
    case True
    then have "N div B = 0" using N' by simp
    then have "N < B" using B2 by (simp add: div_eq_0_iff)
    then have "base_digits B N = [d]"
      unfolding d_def by (subst base_digits.simps) simp
    then show ?thesis
      using True step by (simp add: B_def [symmetric] N_def [symmetric])
  next
    case False
    then have nz: "sint i' \<noteq> 0" by (simp add: signed_eq_0_iff)
    then have "N div B \<noteq> 0" using N' by simp
    then have ge: "\<not> (B < 2 \<or> N < B)" using B2 by (auto simp: div_eq_0_iff)
    then have "N div B < N" using B2 by simp
    then have "nat \<bar>sint i'\<bar> < nat \<bar>sint i\<bar>"
      using N' by (simp add: N_def)
    from less [OF this, of "ptr + 1" "m(ptr := d)"] obtain t where
      t: "itoa_loop i' base (ptr + 1) (m(ptr := d)) =
            Some (t, ptr + 1 + length (base_digits B (N div B)),
                  write_at (m(ptr := d)) (ptr + 1) (rev (base_digits B (N div B))))"
      and sg: "sint t < 0 \<longleftrightarrow> sint i' < 0"
      by (auto simp: B_def [symmetric] N' )
    have bd: "base_digits B N = base_digits B (N div B) @ [d]"
      unfolding d_def using ge by (subst base_digits.simps) simp
    have "sint i' < 0 \<longleftrightarrow> sint i < 0"
      using sdiv_smod_abs(3) [OF pos, of "sint i"] nz si' by simp
    then show ?thesis
      using False step t sg bd by (simp add: B_def [symmetric] N_def [symmetric])
  qed
qed

lemma itoa_reverse_nth:
  "itoa_reverse m lo hi a = (if lo \<le> a \<and> a \<le> hi then m (lo + hi - a) else m a)"
proof (induction m lo hi arbitrary: a rule: itoa_reverse.induct)
  case (1 m ptr1 ptr)
  show ?case
  proof (cases "ptr1 < ptr")
    case True
    have "itoa_reverse m ptr1 ptr a =
            itoa_reverse ((m(ptr := m ptr1))(ptr1 := m ptr)) (ptr1 + 1) (ptr - 1) a"
      using True by (subst itoa_reverse.simps) simp
    also have "\<dots> = (if ptr1 + 1 \<le> a \<and> a \<le> ptr - 1
                      then ((m(ptr := m ptr1))(ptr1 := m ptr)) (ptr1 + 1 + (ptr - 1) - a)
                      else ((m(ptr := m ptr1))(ptr1 := m ptr)) a)"
      by (rule "1.IH" [OF True])
    also have "\<dots> = (if ptr1 \<le> a \<and> a \<le> ptr then m (ptr1 + ptr - a) else m a)"
      using True by (auto simp: fun_upd_def)
    finally show ?thesis .
  next
    case False
    then show ?thesis
      by (subst itoa_reverse.simps) (auto intro: arg_cong [where f = m])
  qed
qed


lemma itoa_valid_base:
  fixes i base :: u32
  assumes "2 \<le> sint base" and "sint base \<le> 36"
  defines "str \<equiv> std_repr (nat (sint base)) (sint i)"
  shows "\<exists>m'. itoa i s base m = Some (s, m') \<and>
           read_mem m' s (length str + 1) = str @ [CHR 0x00] \<and>
           (\<forall>a. a < s \<or> s + length str < a \<longrightarrow> m' a = m a)"
proof -
  define ds where "ds = rev (base_digits (nat (sint base)) (nat \<bar>sint i\<bar>))"
  define sgn where "sgn = (if sint i < 0 then ''-'' else [])"
  define ws where "ws = ds @ sgn"
  define m3 where "m3 = (write_at m s ws)(s + length ws := CHR 0x00)"
  obtain t where loop: "itoa_loop i base s m = Some (t, s + length ds, write_at m s ds)"
    and sg: "sint t < 0 \<longleftrightarrow> sint i < 0"
    using itoa_loop_spec [OF assms(1,2), of i s m] by (auto simp: ds_def)
  have res: "itoa i s base m = Some (s, itoa_reverse m3 s (s + length ws - 1))"
    using assms(1,2) loop sg
    by (simp add: itoa_def m3_def ws_def sgn_def write_at_snoc)
  have ne: "ws \<noteq> []"
    by (simp add: ws_def ds_def base_digits_nonempty)
  have str: "str = rev ws"
    by (simp add: str_def std_repr_def ws_def ds_def sgn_def)
  have len: "length str = length ws"
    by (simp add: str)
  have m3_in: "m3 (s + k) = ws ! k" if "k < length ws" for k
    using that by (simp add: m3_def write_at_nth)
  have inside: "itoa_reverse m3 s (s + length ws - 1) (s + j) = rev ws ! j" if "j < length ws" for j
  proof -
    have hi: "s + j \<le> s + length ws - 1"
      using that by arith
    have "itoa_reverse m3 s (s + length ws - 1) (s + j) = m3 (s + (s + length ws - 1) - (s + j))"
      by (simp only: itoa_reverse_nth hi le_add1 if_True simp_thms)
    also have "s + (s + length ws - 1) - (s + j) = s + (length ws - Suc j)"
      using that by arith
    also have "m3 (s + (length ws - Suc j)) = ws ! (length ws - Suc j)"
      by (rule m3_in) (use that in arith)
    finally show ?thesis
      using that by (simp add: rev_nth)
  qed
  have pos: "0 < length ws"
    using ne by simp
  have "\<not> s + length ws \<le> s + length ws - 1"
    using pos by arith
  then have nul: "itoa_reverse m3 s (s + length ws - 1) (s + length ws) = CHR 0x00"
    by (simp add: itoa_reverse_nth m3_def)
  have "read_mem (itoa_reverse m3 s (s + length ws - 1)) s (length ws + 1) = rev ws @ [CHR 0x00]"
  proof (rule nth_equalityI)
    show "length (read_mem (itoa_reverse m3 s (s + length ws - 1)) s (length ws + 1)) =
            length (rev ws @ [CHR 0x00])"
      by (simp add: read_mem_def)
  next
    fix j
    assume "j < length (read_mem (itoa_reverse m3 s (s + length ws - 1)) s (length ws + 1))"
    then have j: "j < length ws + 1" by (simp add: read_mem_def)
    show "read_mem (itoa_reverse m3 s (s + length ws - 1)) s (length ws + 1) ! j =
            (rev ws @ [CHR 0x00]) ! j"
    proof (cases "j < length ws")
      case True
      then show ?thesis
        using inside [OF True] by (simp add: read_mem_def nth_append)
    next
      case False
      then have "j = length ws" using j by simp
      then show ?thesis
        using nul by (simp add: read_mem_def nth_append)
    qed
  qed
  moreover have "itoa_reverse m3 s (s + length ws - 1) a = m a" if "a < s \<or> s + length ws < a" for a
  proof -
    have "\<not> (s \<le> a \<and> a \<le> s + length ws - 1)"
      using that by arith
    then have "itoa_reverse m3 s (s + length ws - 1) a = m3 a"
      by (simp only: itoa_reverse_nth if_False)
    also have "m3 a = m a"
      using that by (auto simp: m3_def write_at_nth)
    finally show ?thesis .
  qed
  ultimately show ?thesis
    using res by (simp add: str len)
qed

text \<open>
  C9. For every \<open>i\<close> and every base in \<open>[2, 36]\<close>, \<^verbatim>\<open>itoa\<close> returns \<open>s\<close>, and the memory
  from \<open>s\<close> on holds the standard representation of \<open>i\<close> in that base followed by a NUL
  character, nothing else being changed; for a base outside \<open>[2, 36]\<close> it returns \<open>s\<close>
  after writing a single NUL character at \<open>s\<close>.
\<close>

theorem itoa_correct:
  "(2 \<le> sint base \<and> sint base \<le> 36 \<longrightarrow>
      (\<exists>m'. itoa i s base m = Some (s, m') \<and>
            read_mem m' s (length (std_repr (nat (sint base)) (sint i)) + 1) =
              std_repr (nat (sint base)) (sint i) @ [CHR 0x00] \<and>
            (\<forall>a. a < s \<or> s + length (std_repr (nat (sint base)) (sint i)) < a \<longrightarrow> m' a = m a))) \<and>
   (sint base < 2 \<or> 36 < sint base \<longrightarrow> itoa i s base m = Some (s, m(s := CHR 0x00)))"
  using itoa_valid_base [of base i s m] by (simp add: itoa_def)


definition hash_mem :: "addr \<Rightarrow> char" where
  "hash_mem a = CHR ''#''"

theorem itoa_correct_witness:
  "2 \<le> sint (16::u32) \<and> sint (16::u32) \<le> 36 \<and>
   (\<exists>m'. itoa (- 255) 3 16 hash_mem = Some (3, m') \<and>
         read_mem m' 3 (length ''-ff'' + 1) = ''-ff'' @ [CHR 0x00] \<and>
         m' 2 = CHR ''#'' \<and> m' 7 = CHR ''#'') \<and>
   36 < sint (37::u32) \<and>
   itoa (- 255) 3 37 hash_mem = Some (3, hash_mem(3 := CHR 0x00))"
  using itoa_correct [of 16 "- 255" 3 hash_mem] itoa_correct [of 37 "- 255" 3 hash_mem]
  by (auto simp: std_repr_def base_digits.simps digit_char_def hash_mem_def)

section \<open>libc: \<^verbatim>\<open>__udivmodsi4\<close>\<close>

text \<open>
  Shift-and-subtract division on \<^verbatim>\<open>uint32_t\<close>. The first loop doubles \<^verbatim>\<open>den\<close> and
  \<^verbatim>\<open>bit\<close> while \<^verbatim>\<open>den < num\<close>, \<^verbatim>\<open>bit\<close> is non-zero and bit 31 of \<^verbatim>\<open>den\<close> is clear
  (\<^verbatim>\<open>den & (1L << 31)\<close>); the second loop walks back down, subtracting and setting result
  bits. The two are modelled on 32-bit words, so the shifts drop bits as the C code
  does. The measure of the first loop counts how many doublings a word survives before
  it becomes zero.
\<close>

fun shl_steps :: "nat \<Rightarrow> u32 \<Rightarrow> nat" where
  "shl_steps 0 w = 0"
| "shl_steps (Suc n) w = (if w = 0 then 0 else Suc (shl_steps n (push_bit 1 w)))"

lemma shl_steps_stable:
  "w * 2 ^ n = 0 \<Longrightarrow> shl_steps (Suc n) w = shl_steps n w"
proof (induction n arbitrary: w)
  case 0
  then show ?case by simp
next
  case (Suc n)
  have "(w * 2) * 2 ^ n = 0"
    using Suc.prems by (simp add: mult.assoc)
  from Suc.IH [OF this] show ?case by simp
qed

lemma shl_steps_less_gen:
  assumes "w \<noteq> 0" and "w * 2 ^ Suc n = 0"
  shows "shl_steps (Suc n) (w * 2) < shl_steps (Suc n) w"
proof -
  have "(w * 2) * 2 ^ n = 0"
    using assms(2) by (simp add: mult.assoc)
  then have "shl_steps (Suc n) (w * 2) = shl_steps n (w * 2)"
    by (rule shl_steps_stable)
  moreover have "shl_steps (Suc n) w = Suc (shl_steps n (w * 2))"
    using assms(1) by simp
  ultimately show ?thesis by simp
qed

lemma shl_steps_less:
  assumes "w \<noteq> 0"
  shows "shl_steps 32 (w * 2) < shl_steps 32 w"
proof -
  have "(2::u32) ^ Suc 31 = 0"
    by simp
  then have "w * 2 ^ Suc 31 = 0"
    by (simp only: mult_zero_right)
  from shl_steps_less_gen [OF assms this] have "shl_steps (Suc 31) (w * 2) < shl_steps (Suc 31) w" .
  moreover have "Suc 31 = 32" by simp
  ultimately show ?thesis by (simp only:)
qed

text \<open>First loop of \<^verbatim>\<open>__udivmodsi4\<close>; returns the final \<^verbatim>\<open>den\<close> and \<^verbatim>\<open>bit\<close>.\<close>

function udiv_shift_up :: "u32 \<Rightarrow> u32 \<Rightarrow> u32 \<Rightarrow> u32 \<times> u32" where
  "udiv_shift_up num den b =
     (if den < num \<and> b \<noteq> 0 \<and> den AND push_bit 31 1 = 0
      then udiv_shift_up num (push_bit 1 den) (push_bit 1 b)
      else (den, b))"
  by pat_completeness auto
termination
  by (relation "measure (\<lambda>(num, den, b). shl_steps 32 b)") (auto intro: shl_steps_less)

lemma drop_bit_1_less: "b \<noteq> 0 \<Longrightarrow> unat (drop_bit 1 b) < unat (b::u32)"
proof -
  assume "b \<noteq> 0"
  then have "0 < unat b" by (simp add: unat_gt_0)
  moreover have "unat (drop_bit 1 b) = unat b div 2"
    by (simp add: drop_bit_eq_div unat_div)
  ultimately show ?thesis by simp
qed

text \<open>Second loop of \<^verbatim>\<open>__udivmodsi4\<close>; returns the final \<^verbatim>\<open>num\<close> and \<^verbatim>\<open>res\<close>.\<close>

function udiv_sub_down :: "u32 \<Rightarrow> u32 \<Rightarrow> u32 \<Rightarrow> u32 \<Rightarrow> u32 \<times> u32" where
  "udiv_sub_down num den b res =
     (if b \<noteq> 0
      then (if den \<le> num
            then udiv_sub_down (num - den) (drop_bit 1 den) (drop_bit 1 b) (res OR b)
            else udiv_sub_down num (drop_bit 1 den) (drop_bit 1 b) res)
      else (num, res))"
  by pat_completeness auto
termination
  by (relation "measure (\<lambda>(num, den, b, res). unat b)") (auto intro: drop_bit_1_less [simplified])

declare udiv_shift_up.simps [simp del] udiv_sub_down.simps [simp del]

text \<open>
  \<^verbatim>\<open>__udivmodsi4(num, den, modwanted)\<close>. The flag \<^verbatim>\<open>modwanted\<close> is an \<^verbatim>\<open>int32_t\<close> that is
  only tested against zero.
\<close>

definition udivmodsi4 :: "u32 \<Rightarrow> u32 \<Rightarrow> u32 \<Rightarrow> u32" where
  "udivmodsi4 num den modwanted =
     (case udiv_shift_up num den 1 of (den', b) \<Rightarrow>
        (case udiv_sub_down num den' b 0 of (num', res) \<Rightarrow>
           if modwanted \<noteq> 0 then num' else res))"


lemma bit31_clear_iff: "(den::u32) AND push_bit 31 1 = 0 \<longleftrightarrow> unat den < 2 ^ 31"
proof -
  have "den AND 2 ^ 31 = 0 \<longleftrightarrow> \<not> bit den 31"
    by (rule and_exp_eq_0_iff_not_bit)
  moreover have "bit den 31 \<longleftrightarrow> odd (unat den div 2 ^ 31)"
  proof -
    have "bit den 31 \<longleftrightarrow> bit (unat den) 31"
      by (simp add: bit_unsigned_iff)
    then show ?thesis
      by (simp only: bit_iff_odd)
  qed
  moreover have "unat den div 2 ^ 31 < 2"
    using unsigned_less [of den, where 'a = nat] by (simp add: less_mult_imp_div_less)
  ultimately show ?thesis
    unfolding push_bit_of_1
    by (cases "unat den div 2 ^ 31 = 0") (auto simp: div_eq_0_iff less_2_cases_iff)
qed

lemma unat_double: "unat (den::u32) < 2 ^ 31 \<Longrightarrow> unat (push_bit 1 den) = 2 * unat den"
proof -
  assume "unat den < 2 ^ 31"
  then have "unat den * unat (2::u32) < 2 ^ LENGTH(32)" by simp
  then have "unat (den * 2) = unat den * unat (2::u32)"
    by (simp only: unat_mult_lem)
  then show ?thesis by (simp add: push_bit_eq_mult)
qed

lemma unat_halve: "unat (drop_bit 1 (den::u32)) = unat den div 2"
  by (simp add: drop_bit_eq_div unat_div)

lemma or_pow2_eq_add:
  assumes "\<forall>n\<le>k. \<not> bit (res::u32) n"
  shows "res OR 2 ^ k = res + 2 ^ k"
proof -
  have "res AND 2 ^ k = 0"
    using assms by (simp add: and_exp_eq_0_iff_not_bit)
  then show ?thesis
    by (simp add: disjunctive_add_eq_or)
qed


lemma udiv_shift_up_post:
  assumes "b = 2 ^ k" and "unat den = d0 * 2 ^ k" and "0 < d0"
  shows "\<exists>k' den'. udiv_shift_up num den b = (den', 2 ^ k') \<and>
           unat den' = d0 * 2 ^ k' \<and> unat num < 2 * unat den'"
  using assms
proof (induction num den b arbitrary: k rule: udiv_shift_up.induct)
  case (1 num den b)
  have den_pos: "0 < unat den"
    using "1.prems" by simp
  show ?case
  proof (cases "den < num \<and> b \<noteq> 0 \<and> den AND push_bit 31 1 = 0")
    case True
    then have small: "unat den < 2 ^ 31"
      by (simp only: bit31_clear_iff)
    have "push_bit 1 b = 2 ^ Suc k"
      using "1.prems"(1) by (simp add: push_bit_eq_mult)
    moreover have "unat (push_bit 1 den) = d0 * 2 ^ Suc k"
      using unat_double [OF small] "1.prems"(2) by simp
    ultimately obtain k' den' where
      "udiv_shift_up num (push_bit 1 den) (push_bit 1 b) = (den', 2 ^ k')"
      "unat den' = d0 * 2 ^ k'" "unat num < 2 * unat den'"
      using "1.IH" [OF True _ _ "1.prems"(3)] by blast
    then show ?thesis
      using True by (subst udiv_shift_up.simps) auto
  next
    case False
    have k_small: "2 ^ k < (2::nat) ^ 32"
    proof -
      have "2 ^ k \<le> d0 * 2 ^ k" using "1.prems"(3) by simp
      also have "\<dots> < 2 ^ 32"
        using unsigned_less [of den, where 'a = nat] "1.prems"(2) by simp
      finally show ?thesis .
    qed
    then have "k < 32" by (rule power_less_imp_less_exp [rotated]) simp
    then have "b \<noteq> 0"
      using "1.prems"(1) by simp
    with False have "\<not> den < num \<or> \<not> unat den < 2 ^ 31"
      by (simp only: bit31_clear_iff) blast
    then have "unat num < 2 * unat den"
    proof
      assume "\<not> den < num"
      then have "unat num \<le> unat den" by (simp add: word_less_nat_alt)
      with den_pos show ?thesis by simp
    next
      assume "\<not> unat den < 2 ^ 31"
      moreover have "unat num < 2 ^ 32"
        using unsigned_less [of num, where 'a = nat] by simp
      ultimately show ?thesis by simp
    qed
    moreover have "udiv_shift_up num den b = (den, 2 ^ k)"
      using False "1.prems"(1) by (subst udiv_shift_up.simps) auto
    ultimately show ?thesis
      using "1.prems"(2) by blast
  qed
qed


lemma between_once:
  fixes n d0 :: nat
  assumes "d0 \<le> n" and "n < 2 * d0"
  shows "n mod d0 = n - d0" and "n div d0 = 1"
proof -
  obtain r where n: "n = d0 + r" and r: "r < d0"
    using assms by (metis add_diff_inverse_nat le_add_diff_inverse less_diff_conv2 mult_2 not_less add.commute)
  show "n mod d0 = n - d0" using n r by simp
  have "d0 \<noteq> 0" using r by auto
  then have "(d0 + r) div d0 = r div d0 + 1" by (rule div_add_self1)
  then show "n div d0 = 1" using n r by simp
qed

lemma sub_multiple_mod:
  fixes n d0 c :: nat
  assumes "d0 * c \<le> n"
  shows "(n - d0 * c) mod d0 = n mod d0"
proof -
  obtain r where "n = r + d0 * c"
    using assms by (metis le_add_diff_inverse2)
  then show ?thesis by simp
qed

lemma sub_multiple_div:
  fixes n d0 c :: nat
  assumes "d0 * c \<le> n" and "0 < d0"
  shows "n div d0 = (n - d0 * c) div d0 + c"
proof -
  obtain r where "n = r + d0 * c"
    using assms(1) by (metis le_add_diff_inverse2)
  then show ?thesis using assms(2) by simp
qed

lemma udiv_sub_down_done: "udiv_sub_down num den 0 res = (num, res)"
  by (subst udiv_sub_down.simps) simp

lemma unat_pow2:
  assumes "k < 32"
  shows "unat ((2::u32) ^ k) = 2 ^ k"
proof -
  have "(2::nat) ^ k < 2 ^ 32"
    using assms by (rule power_strict_increasing) simp
  moreover have "(2::u32) ^ k = word_of_nat (2 ^ k)"
    by simp
  ultimately show ?thesis
    by (simp only: unat_of_nat) simp
qed

lemma halve_pow2: "drop_bit 1 ((2::u32) ^ Suc k) = 2 ^ k" if "Suc k < 32"
proof -
  have "unat (drop_bit 1 ((2::u32) ^ Suc k)) = unat ((2::u32) ^ Suc k) div 2"
    by (rule unat_halve)
  also have "unat ((2::u32) ^ Suc k) = 2 ^ Suc k"
    using that by (rule unat_pow2)
  finally have "unat (drop_bit 1 ((2::u32) ^ Suc k)) = unat ((2::u32) ^ k)"
    using that by (simp add: unat_pow2)
  then show ?thesis by (simp only: word_unat_eq_iff)
qed

lemma udiv_sub_down_correct:
  assumes "b = 2 ^ k" and "unat den = d0 * 2 ^ k" and "0 < d0"
    and "unat num < 2 * unat den" and "\<forall>n\<le>k. \<not> bit res n"
  shows "udiv_sub_down num den b res =
           (word_of_nat (unat num mod d0), res + word_of_nat (unat num div d0))"
  using assms
proof (induction k arbitrary: num den b res)
  case 0
  then have b1: "b = 1" and dd: "unat den = d0" by simp_all
  have even_res: "res OR 1 = res + 1"
    using or_pow2_eq_add [of 0 res] "0.prems"(5) by simp
  show ?case
  proof (cases "den \<le> num")
    case True
    then have le: "d0 \<le> unat num" using dd by (simp add: word_le_nat_alt)
    have sub: "unat (num - den) = unat num - d0"
      using True dd by (simp add: unat_sub)
    have "unat num mod d0 = unat num - d0" "unat num div d0 = 1"
      using between_once [OF le] "0.prems"(4) dd by simp_all
    moreover have "udiv_sub_down num den b res = (num - den, res OR 1)"
      using True b1 by (subst udiv_sub_down.simps) (simp add: udiv_sub_down_done)
    moreover have "word_of_nat (unat (num - den)) = num - den"
      by simp
    then have "word_of_nat (unat num - d0) = num - den"
      by (simp only: sub)
    ultimately show ?thesis
      using even_res by simp
  next
    case False
    then have "unat num < d0" using dd by (simp add: word_le_nat_alt)
    moreover have "udiv_sub_down num den b res = (num, res)"
      using False b1 by (subst udiv_sub_down.simps) (simp add: udiv_sub_down_done)
    ultimately show ?thesis by simp
  qed
next
  case (Suc k)
  have k_small: "Suc k < 32"
  proof -
    have "2 ^ Suc k \<le> d0 * 2 ^ Suc k" using Suc.prems(3) by simp
    also have "\<dots> < 2 ^ 32"
      using unsigned_less [of den, where 'a = nat] Suc.prems(2) by simp
    finally show ?thesis by (rule power_less_imp_less_exp [rotated]) simp
  qed
  have b': "drop_bit 1 b = 2 ^ k"
    using Suc.prems(1) halve_pow2 [OF k_small] by simp
  have den': "unat (drop_bit 1 den) = d0 * 2 ^ k"
    unfolding unat_halve using Suc.prems(2) by simp
  have b0: "b \<noteq> 0"
    using Suc.prems(1) k_small by (simp del: power_Suc)
  show ?case
  proof (cases "den \<le> num")
    case True
    then have le: "unat den \<le> unat num" by (simp add: word_le_nat_alt)
    have sub: "unat (num - den) = unat num - unat den"
      using True by (simp add: unat_sub)
    have lt: "unat (num - den) < 2 * unat (drop_bit 1 den)"
      using sub le Suc.prems(4) den' Suc.prems(2) by simp
    have res': "res OR 2 ^ Suc k = res + 2 ^ Suc k"
      by (rule or_pow2_eq_add [OF Suc.prems(5)])
    have clear: "\<forall>n\<le>k. \<not> bit (res OR b) n"
      using Suc.prems(1,5) by (auto simp: bit_or_iff bit_exp_iff simp del: power_Suc)
    have "udiv_sub_down num den b res =
            udiv_sub_down (num - den) (drop_bit 1 den) (drop_bit 1 b) (res OR b)"
      using True b0 by (subst udiv_sub_down.simps) simp
    also have "\<dots> = (word_of_nat (unat (num - den) mod d0),
                       (res OR b) + word_of_nat (unat (num - den) div d0))"
      by (rule Suc.IH [OF b' den' Suc.prems(3) lt clear])
    also have "unat (num - den) mod d0 = unat num mod d0"
      using sub_multiple_mod [of d0 "2 ^ Suc k" "unat num"] sub le Suc.prems(2) by simp
    also have "(res OR b) + word_of_nat (unat (num - den) div d0) =
                 res + word_of_nat (unat num div d0)"
    proof -
      have "unat num div d0 = unat (num - den) div d0 + 2 ^ Suc k"
        using sub_multiple_div [of d0 "2 ^ Suc k" "unat num"] sub le Suc.prems(2,3) by simp
      then have "word_of_nat (unat num div d0) =
                   (word_of_nat (unat (num - den) div d0) + 2 ^ Suc k :: u32)"
        by (simp only: of_nat_add of_nat_power of_nat_numeral)
      then show ?thesis
        by (simp only: Suc.prems(1) res' ac_simps)
    qed
    finally show ?thesis .
  next
    case False
    then have lt: "unat num < 2 * unat (drop_bit 1 den)"
      using den' Suc.prems(2) by (simp add: word_le_nat_alt)
    have clear: "\<forall>n\<le>k. \<not> bit res n"
      using Suc.prems(5) by simp
    have "udiv_sub_down num den b res =
            udiv_sub_down num (drop_bit 1 den) (drop_bit 1 b) res"
      using False b0 by (subst udiv_sub_down.simps) simp
    also have "\<dots> = (word_of_nat (unat num mod d0), res + word_of_nat (unat num div d0))"
      by (rule Suc.IH [OF b' den' Suc.prems(3) lt clear])
    finally show ?thesis .
  qed
qed

text \<open>
  C8. For every \<open>num\<close> and every \<open>den \<noteq> 0\<close>, \<^verbatim>\<open>__udivmodsi4(num, den, 0)\<close> is the
  unsigned quotient \<open>num div den\<close> and \<^verbatim>\<open>__udivmodsi4(num, den, 1)\<close> is the unsigned
  remainder \<open>num mod den\<close> (division and remainder of 32-bit words are those of their
  unsigned values).
\<close>

theorem udivmodsi4_correct:
  assumes "den \<noteq> 0"
  shows "udivmodsi4 num den 0 = num div den \<and> udivmodsi4 num den 1 = num mod den"
proof -
  have pos: "0 < unat den" using assms by (simp add: unat_gt_0)
  obtain k den' where up: "udiv_shift_up num den 1 = (den', 2 ^ k)"
    and d: "unat den' = unat den * 2 ^ k" and n: "unat num < 2 * unat den'"
    using udiv_shift_up_post [of 1 0 den "unat den" num] pos by auto
  have "udiv_sub_down num den' (2 ^ k) 0 =
          (word_of_nat (unat num mod unat den), 0 + word_of_nat (unat num div unat den))"
    by (rule udiv_sub_down_correct [OF refl d pos n]) simp
  then have "udiv_sub_down num den' (2 ^ k) 0 = (num mod den, num div den)"
    by (simp add: word_arith_nat_div word_arith_nat_mod)
  with up show ?thesis
    by (simp add: udivmodsi4_def)
qed

theorem udivmodsi4_correct_witness:
  "(7::u32) \<noteq> 0 \<and> udivmodsi4 100 7 0 = 14 \<and> udivmodsi4 100 7 1 = 2"
  using udivmodsi4_correct [of 7 100] by simp

end
